theory Spec2Isabelle
  imports Main "HOL-Library.Sublist"
begin

section \<open>Characters, digits and Python's \<open>int\<close>\<close>

text \<open>
  A filename is a \<open>string\<close>; a \<open>char\<close> stands for the code point of the same
  number (0 to 255). Among these code points the class \<open>\d\<close> of Python's \<open>re\<close>
  holds exactly the ten ASCII digits, and \<open>[a-zA-Z]\<close> the 52 ASCII letters.
\<close>

definition is_digit :: "char \<Rightarrow> bool" where
  "is_digit c = (48 \<le> (of_char c :: nat) \<and> (of_char c :: nat) \<le> 57)"

definition is_alpha :: "char \<Rightarrow> bool" where
  "is_alpha c = ((65 \<le> (of_char c :: nat) \<and> (of_char c :: nat) \<le> 90) \<or>
                 (97 \<le> (of_char c :: nat) \<and> (of_char c :: nat) \<le> 122))"

definition digit_val :: "char \<Rightarrow> int" where
  "digit_val c = int (of_char c) - 48"

text \<open>
  \<open>int(s)\<close> on a string of decimal digits. Python integers are unbounded; the cap
  that an interpreter may put on the number of digits of one conversion is not modelled.
\<close>

definition py_int :: "string \<Rightarrow> int" where
  "py_int s = foldl (\<lambda>acc c. 10 * acc + digit_val c) 0 s"

section \<open>Sequence inference: \<open>extract_file_number\<close>\<close>

text \<open>
  \<open>re.search(r'^(\d+)[a-zA-Z]', filename)\<close>: the anchor \<open>^\<close> pins the match to
  position 0, \<open>\d+\<close> takes the digits there, and the next character has to be a
  letter. The result is group 1 of the match, or \<open>None\<close>.
\<close>

definition search_leading :: "string \<Rightarrow> string option" where
  "search_leading filename =
     (let ds = takeWhile is_digit filename; rest = dropWhile is_digit filename
      in case rest of
           [] \<Rightarrow> None
         | c # _ \<Rightarrow> if ds \<noteq> [] \<and> is_alpha c then Some ds else None)"

text \<open>
  \<open>re.findall(r'\d+', filename)\<close>: scan from the left; at a digit the greedy
  \<open>\d+\<close> consumes the whole run and the scan goes on behind it, at any other
  character the scan moves one position on.
\<close>

function findall_digits :: "string \<Rightarrow> string list" where
  "findall_digits [] = []"
| "findall_digits (c # cs) =
     (if is_digit c
      then (c # takeWhile is_digit cs) # findall_digits (dropWhile is_digit cs)
      else findall_digits cs)"
  by pat_completeness auto
termination
  by (relation "measure length") (auto simp: le_imp_less_Suc length_dropWhile_le)

text \<open>The loop over \<open>numbers\<close>: the first one whose value is in 1..1000 is returned.\<close>

fun first_in_range :: "string list \<Rightarrow> int option" where
  "first_in_range [] = None"
| "first_in_range (num # nums) =
     (let num_int = py_int num
      in if 1 \<le> num_int \<and> num_int \<le> 1000 then Some num_int else first_in_range nums)"

definition extract_file_number :: "string \<Rightarrow> int option" where
  "extract_file_number filename =
     (case search_leading filename of
        Some g \<Rightarrow> Some (py_int g)
      | None \<Rightarrow> first_in_range (findall_digits filename))"

section \<open>Range filter and sorter: \<open>filter_files_by_range\<close>\<close>

text \<open>
  The dictionaries built by the scraper have the keys \<open>filename\<close>, \<open>url\<close> and
  \<open>text\<close>; the filter adds the key \<open>file_number\<close>, so the field is optional.
\<close>

record file_info =
  filename :: string
  url :: string
  "text" :: string
  file_number :: "int option"

text \<open>
  The loop of lines 115 to 119. The test \<open>if file_num and ...\<close> uses Python's
  truthiness: it fails for \<open>None\<close> and for the integer 0. What the function prints
  is left out.
\<close>

fun filter_loop :: "int \<Rightarrow> int \<Rightarrow> file_info list \<Rightarrow> file_info list" where
  "filter_loop start_num end_num [] = []"
| "filter_loop start_num end_num (fi # csv_files) =
     (case extract_file_number (filename fi) of
        None \<Rightarrow> filter_loop start_num end_num csv_files
      | Some file_num \<Rightarrow>
          if file_num \<noteq> 0 \<and> start_num \<le> file_num \<and> file_num \<le> end_num
          then fi\<lparr>file_number := Some file_num\<rparr> # filter_loop start_num end_num csv_files
          else filter_loop start_num end_num csv_files)"

text \<open>The sort key \<open>lambda x: x.get('file_number', 0)\<close>.\<close>

definition sort_key_of :: "file_info \<Rightarrow> int" where
  "sort_key_of x = (case file_number x of Some n \<Rightarrow> n | None \<Rightarrow> 0)"

text \<open>
  \<open>list.sort\<close> is a stable sort. A list has one stable sorting by a key (the library
  fact \<open>properties_for_sort_key\<close>), so the stable insertion sort \<^const>\<open>sort_key\<close>
  returns what Python's sort returns.
\<close>

definition filter_files_by_range :: "file_info list \<Rightarrow> int \<Rightarrow> int \<Rightarrow> file_info list" where
  "filter_files_by_range csv_files start_num end_num =
     sort_key sort_key_of (filter_loop start_num end_num csv_files)"

section \<open>Link extraction: \<open>get_all_filenames\<close>\<close>

text \<open>\<open>s.endswith(suf)\<close>, a comparison of code points.\<close>

definition endswith :: "string \<Rightarrow> string \<Rightarrow> bool" where
  "endswith s suf = (length suf \<le> length s \<and> drop (length s - length suf) s = suf)"

text \<open>\<open>s.split(sep)\<close> for a separator of one character: never an empty list.\<close>

fun split_on :: "char \<Rightarrow> string \<Rightarrow> string list" where
  "split_on sep [] = [[]]"
| "split_on sep (c # cs) =
     (if c = sep then [] # split_on sep cs
      else (let segs = split_on sep cs in (c # hd segs) # tl segs))"

text \<open>
  \<open>s.strip()\<close>: the code points below 256 that Python takes for whitespace are
  9 to 13, 28 to 32, 133 and 160.
\<close>

definition is_space :: "char \<Rightarrow> bool" where
  "is_space c = (let n = (of_char c :: nat)
                 in (9 \<le> n \<and> n \<le> 13) \<or> (28 \<le> n \<and> n \<le> 32) \<or> n = 133 \<or> n = 160)"

definition strip :: "string \<Rightarrow> string" where
  "strip s = rev (dropWhile is_space (rev (dropWhile is_space s)))"

text \<open>
  An anchor element of the page. Reading its attributes may raise (the element has
  gone stale); otherwise \<open>get_attribute("href")\<close> gives a string or \<open>None\<close>, and
  \<open>text\<close> the visible text.
\<close>

datatype link = Stale | Anchor "string option" string

text \<open>The loop of lines 58 to 71: an anchor whose reading raises is passed over.\<close>

fun csv_loop :: "link list \<Rightarrow> file_info list" where
  "csv_loop [] = []"
| "csv_loop (Stale # links) = csv_loop links"
| "csv_loop (Anchor None t # links) = csv_loop links"
| "csv_loop (Anchor (Some href) t # links) =
     (if href \<noteq> [] \<and> endswith href ''.csv''
      then \<lparr>filename = last (split_on (CHR ''/'') href), url = href, text = strip t,
            file_number = None\<rparr> # csv_loop links
      else csv_loop links)"

text \<open>
  What the browser did: no driver, an exception while loading or waiting, or the
  anchors of the page in page order.
\<close>

datatype page = DriverSetupFailed | ScrapeError | Links "link list"

fun get_all_filenames :: "page \<Rightarrow> file_info list" where
  "get_all_filenames DriverSetupFailed = []"
| "get_all_filenames ScrapeError = []"
| "get_all_filenames (Links links) = csv_loop links"

section \<open>Downloader: \<open>download_file\<close>\<close>

text \<open>
  The file system as \<open>download_file\<close> sees it: for every directory path, whether it
  is missing, is something other than a directory, or is a directory with its files
  (name to bytes). A filename is one path component, as the link extractor builds it.
  The network is a function from the URL to the outcome of \<open>requests.get\<close>.
\<close>

datatype dir_state = Missing | NotADirectory | Directory "string \<rightharpoonup> string"

datatype http_result = Response int string | RequestException

datatype message =
    AlreadyExists string
  | Downloading string
  | Downloaded string nat
  | FailedHttp string int
  | ErrorDownloading string

record world =
  fs :: "string \<Rightarrow> dir_state"
  requests :: "string list"
  console :: "message list"

definition print :: "message \<Rightarrow> world \<Rightarrow> world" where
  "print m w = w\<lparr>console := console w @ [m]\<rparr>"

text \<open>\<open>os.makedirs(d, exist_ok=True)\<close>: \<open>None\<close> when it raises \<open>FileExistsError\<close>.\<close>

definition makedirs :: "string \<Rightarrow> world \<Rightarrow> world option" where
  "makedirs d w =
     (case fs w d of
        Missing \<Rightarrow> Some (w\<lparr>fs := (fs w)(d := Directory Map.empty)\<rparr>)
      | NotADirectory \<Rightarrow> None
      | Directory m \<Rightarrow> Some w)"

text \<open>\<open>os.path.exists(os.path.join(d, name))\<close>.\<close>

definition path_exists :: "world \<Rightarrow> string \<Rightarrow> string \<Rightarrow> bool" where
  "path_exists w d name = (case fs w d of Directory m \<Rightarrow> m name \<noteq> None | _ \<Rightarrow> False)"

text \<open>\<open>open(path, 'wb')\<close> and \<open>f.write(content)\<close> in an existing directory.\<close>

definition write_file :: "string \<Rightarrow> string \<Rightarrow> string \<Rightarrow> world \<Rightarrow> world" where
  "write_file d name content w =
     (case fs w d of
        Directory m \<Rightarrow> w\<lparr>fs := (fs w)(d := Directory (m(name \<mapsto> content)))\<rparr>
      | _ \<Rightarrow> w)"

text \<open>
  The result is the returned boolean and the world after the call. Every exception
  inside the \<open>try\<close> ends in the \<open>except\<close> branch, which prints and returns \<open>False\<close>.
\<close>

definition download_file ::
  "(string \<Rightarrow> http_result) \<Rightarrow> file_info \<Rightarrow> string \<Rightarrow> world \<Rightarrow> bool \<times> world" where
  "download_file net fi download_dir w =
     (case makedirs download_dir w of
        None \<Rightarrow> (False, print (ErrorDownloading (filename fi)) w)
      | Some w1 \<Rightarrow>
          if path_exists w1 download_dir (filename fi)
          then (True, print (AlreadyExists (filename fi)) w1)
          else
            (let w2 = print (Downloading (filename fi)) w1;
                 w3 = w2\<lparr>requests := requests w2 @ [url fi]\<rparr>
             in case net (url fi) of
                  RequestException \<Rightarrow> (False, print (ErrorDownloading (filename fi)) w3)
                | Response status_code content \<Rightarrow>
                    if status_code = 200
                    then (True, print (Downloaded (filename fi) (length content))
                                  (write_file download_dir (filename fi) content w3))
                    else (False, print (FailedHttp (filename fi) status_code) w3)))"

text \<open>
  The download loop of \<open>main\<close> (lines 202 to 210) with its two counters; the
  directory is the default \<open>cycling_data\<close>.
\<close>

fun download_all ::
  "(string \<Rightarrow> http_result) \<Rightarrow> file_info list \<Rightarrow> nat \<times> nat \<Rightarrow> world \<Rightarrow> (nat \<times> nat) \<times> world" where
  "download_all net [] counts w = (counts, w)"
| "download_all net (fi # filtered_files) (successful, failed) w =
     (case download_file net fi ''cycling_data'' w of
        (True, w') \<Rightarrow> download_all net filtered_files (successful + 1, failed) w'
      | (False, w') \<Rightarrow> download_all net filtered_files (successful, failed + 1) w')"

section \<open>Notions of the specification\<close>


text \<open>
  The maximal digit runs of a string, from left to right: the string is a gap without
  digits, then a run of digits that no digit follows, then the remainder with its runs.
\<close>

inductive digit_runs :: "string \<Rightarrow> string list \<Rightarrow> bool" where
  no_run: "\<forall>c\<in>set g. \<not> is_digit c \<Longrightarrow> digit_runs g []"
| run: "\<forall>c\<in>set g. \<not> is_digit c \<Longrightarrow> r \<noteq> [] \<Longrightarrow> \<forall>c\<in>set r. is_digit c \<Longrightarrow>
        (case rest of [] \<Rightarrow> True | c # _ \<Rightarrow> \<not> is_digit c) \<Longrightarrow> digit_runs rest rs \<Longrightarrow>
        digit_runs (g @ r @ rest) (r # rs)"

text \<open>
  The same notion by position: \<open>r\<close> stands in the string between \<open>pre\<close> and
  \<open>post\<close>, it is a run of digits, and no digit stands next to it on either side.
\<close>

definition maximal_run :: "string \<Rightarrow> string \<Rightarrow> string \<Rightarrow> bool" where
  "maximal_run pre r post \<longleftrightarrow>
     r \<noteq> [] \<and> list_all is_digit r \<and> (pre = [] \<or> \<not> is_digit (last pre)) \<and>
     (post = [] \<or> \<not> is_digit (hd post))"


text \<open>The test of the filter loop on one record, and the record with its number attached.\<close>

definition in_file_range :: "int \<Rightarrow> int \<Rightarrow> file_info \<Rightarrow> bool" where
  "in_file_range start_num end_num fi =
     (case extract_file_number (filename fi) of
        None \<Rightarrow> False
      | Some n \<Rightarrow> n \<noteq> 0 \<and> start_num \<le> n \<and> n \<le> end_num)"

definition attach :: "file_info \<Rightarrow> file_info" where
  "attach fi = fi\<lparr>file_number := extract_file_number (filename fi)\<rparr>"

text \<open>The text after the last \<open>/\<close> of an href; the whole href when it has none.\<close>

definition final_segment :: "string \<Rightarrow> string" where
  "final_segment href = rev (takeWhile (\<lambda>c. c \<noteq> CHR ''/'') (rev href))"

subsection \<open>Example inputs\<close>

text \<open>The record that the link extractor builds for a file of the listing.\<close>

definition csv_record :: "string \<Rightarrow> file_info" where
  "csv_record name =
     \<lparr>filename = name, url = ''https://cycling.data.tfl.gov.uk/usage-stats/'' @ name,
      text = name, file_number = None\<rparr>"

definition net_ok :: "string \<Rightarrow> http_result" where
  "net_ok u = Response 200 ''new bytes''"


definition dir_with_file :: "string \<rightharpoonup> string" where
  "dir_with_file = [''246a.csv'' \<mapsto> ''old bytes'']"

definition world_with_file :: world where
  "world_with_file =
     \<lparr>fs = (\<lambda>d. Missing)(''cycling_data'' := Directory dir_with_file),
      requests = [], console = []\<rparr>"

section \<open>Sequence inference: the two rules\<close>

lemma py_int_Nil: "py_int [] = 0"
  by (simp add: py_int_def)

lemma py_int_snoc: "py_int (ds @ [d]) = 10 * py_int ds + digit_val d"
  by (simp add: py_int_def)







text \<open>\<open>findall_digits\<close> computes the maximal digit runs, and nothing else does.\<close>

lemma findall_digits_gap:
  "\<forall>c\<in>set g. \<not> is_digit c \<Longrightarrow> findall_digits (g @ s) = findall_digits s"
  by (induction g) auto

lemma findall_digits_run:
  assumes "r \<noteq> []" "\<forall>c\<in>set r. is_digit c"
    and "case rest of [] \<Rightarrow> True | c # _ \<Rightarrow> \<not> is_digit c"
  shows "findall_digits (r @ rest) = r # findall_digits rest"
proof -
  from assms(1) obtain c r' where r: "r = c # r'" by (cases r) auto
  have t: "takeWhile is_digit (r' @ rest) = r'"
    and d: "dropWhile is_digit (r' @ rest) = rest"
    using assms(2,3) unfolding r
    by (auto simp: takeWhile_append2 dropWhile_append2 takeWhile_eq_Nil_iff
        dropWhile_eq_self_iff hd_conv_nth split: list.splits)
  show ?thesis using assms(2) by (simp add: r t d)
qed

lemma digit_runs_unique: "digit_runs s rs \<Longrightarrow> rs = findall_digits s"
proof (induction rule: digit_runs.induct)
  case (no_run g)
  then show ?case using findall_digits_gap [of g "[]"] by simp
next
  case (run g r rest rs)
  then show ?case by (simp add: findall_digits_gap findall_digits_run)
qed

lemma digit_runs_Cons:
  assumes "\<not> is_digit c" and "digit_runs cs rs"
  shows "digit_runs (c # cs) rs"
  using assms(2)
proof cases
  case no_run
  then show ?thesis using assms(1) by (simp add: digit_runs.no_run)
next
  case (run g r rest rs')
  have "digit_runs ((c # g) @ r @ rest) (r # rs')"
    using run assms(1) by (intro digit_runs.run) auto
  then show ?thesis using run by simp
qed

lemma digit_runs_findall: "digit_runs s (findall_digits s)"
proof (induction s rule: findall_digits.induct)
  case 1
  show ?case by (simp add: digit_runs.no_run)
next
  case (2 c cs)
  show ?case
  proof (cases "is_digit c")
    case True
    have "digit_runs ([] @ (c # takeWhile is_digit cs) @ dropWhile is_digit cs)
            ((c # takeWhile is_digit cs) # findall_digits (dropWhile is_digit cs))"
      using True 2(1)
      by (intro digit_runs.run)
         (auto dest: set_takeWhileD split: list.splits simp: dropWhile_eq_Cons_conv)
    then show ?thesis using True by simp
  next
    case False
    then show ?thesis using 2(2) by (simp add: digit_runs_Cons)
  qed
qed

lemma digit_runs_iff: "digit_runs s rs \<longleftrightarrow> rs = findall_digits s"
  using digit_runs_unique digit_runs_findall by blast

lemma findall_digits_append:
  "pre = [] \<or> \<not> is_digit (last pre) \<Longrightarrow>
     findall_digits (pre @ s) = findall_digits pre @ findall_digits s"
proof (induction pre rule: findall_digits.induct)
  case 1
  show ?case by simp
next
  case (2 c cs)
  show ?case
  proof (cases "is_digit c")
    case True
    with 2(3) have ne: "cs \<noteq> []" and l: "\<not> is_digit (last cs)" by (auto split: if_splits)
    then have ex: "\<exists>x\<in>set cs. \<not> is_digit x" using last_in_set by blast
    then obtain x where x: "x \<in> set cs" "\<not> is_digit x" by blast
    have t: "takeWhile is_digit (cs @ s) = takeWhile is_digit cs"
      using x by (rule takeWhile_append1)
    have d: "dropWhile is_digit (cs @ s) = dropWhile is_digit cs @ s"
      using x by (rule dropWhile_append1)
    have dne: "dropWhile is_digit cs \<noteq> []" using ex by (simp add: dropWhile_eq_Nil_conv)
    then have "last (dropWhile is_digit cs) = last cs"
      by (metis last_appendR takeWhile_dropWhile_id)
    then have "findall_digits (dropWhile is_digit cs @ s) =
               findall_digits (dropWhile is_digit cs) @ findall_digits s"
      using 2(1) [OF True] l by simp
    then show ?thesis using True by (simp add: t d)
  next
    case False
    then show ?thesis using 2(2,3) by (auto split: if_splits)
  qed
qed

lemma findall_digits_maximal_run:
  assumes "maximal_run pre r post"
  shows "findall_digits (pre @ r @ post) = findall_digits pre @ r # findall_digits post"
proof -
  from assms have p: "pre = [] \<or> \<not> is_digit (last pre)" by (simp add: maximal_run_def)
  from assms have "findall_digits (r @ post) = r # findall_digits post"
    by (intro findall_digits_run) (auto simp: maximal_run_def list_all_iff split: list.splits)
  with findall_digits_append [OF p, of "r @ post"] show ?thesis by simp
qed

text \<open>Every maximal digit run of the string is listed, behind the runs on its left.\<close>

lemma digit_runs_complete:
  assumes "digit_runs (pre @ r @ post) rs" and "maximal_run pre r post"
  shows "\<exists>before after. rs = before @ r # after \<and> digit_runs pre before \<and> digit_runs post after"
  using assms by (auto simp: digit_runs_iff findall_digits_maximal_run)

text \<open>Every listed run is a maximal digit run of the string.\<close>

lemma digit_runs_sound:
  assumes "digit_runs s rs" and "r \<in> set rs"
  shows "\<exists>pre post. s = pre @ r @ post \<and> maximal_run pre r post"
  using assms
proof (induction rule: digit_runs.induct)
  case (no_run g)
  then show ?case by simp
next
  case (run g r0 rest rs)
  show ?case
  proof (cases "r = r0")
    case True
    have "maximal_run g r0 rest"
      using run.hyps by (cases g rule: rev_cases; cases rest) (auto simp: maximal_run_def list_all_iff)
    then show ?thesis using True by blast
  next
    case False
    with run.prems have "r \<in> set rs" by simp
    then obtain pre post where rest: "rest = pre @ r @ post" and m: "maximal_run pre r post"
      using run.IH by blast
    have "pre \<noteq> []"
    proof
      assume "pre = []"
      with rest m have "is_digit (hd rest)" 
        by (cases r) (auto simp: maximal_run_def)
      moreover from rest m have "rest \<noteq> []" by (auto simp: maximal_run_def)
      ultimately show False using run.hyps(4) by (cases rest) auto
    qed
    then have "maximal_run ((g @ r0) @ pre) r post"
      using m by (simp add: maximal_run_def)
    moreover have "g @ r0 @ rest = ((g @ r0) @ pre) @ r @ post"
      using rest by simp
    ultimately show ?thesis by blast
  qed
qed










section \<open>Range filter and sorter\<close>

text \<open>The loop keeps the records that pass its test, in their order, each with its number.\<close>

lemma filter_loop_conv:
  "filter_loop a b xs = map attach (filter (in_file_range a b) xs)"
  by (induction xs) (auto simp: in_file_range_def attach_def split: option.splits)

lemma filter_loop_number:
  assumes "x \<in> set (filter_loop a b xs)"
  shows "\<exists>n. file_number x = Some n \<and> extract_file_number (filename x) = Some n \<and>
             n \<noteq> 0 \<and> a \<le> n \<and> n \<le> b"
  using assms
  by (auto simp: filter_loop_conv in_file_range_def attach_def split: option.splits)

lemma filter_loop_fixed:
  assumes "\<forall>x\<in>set ys. \<exists>n. file_number x = Some n \<and>
             extract_file_number (filename x) = Some n \<and> n \<noteq> 0 \<and> a \<le> n \<and> n \<le> b"
  shows "filter_loop a b ys = ys"
  using assms by (induction ys) auto

lemma sorted_filter_files: "sorted (map sort_key_of (filter_files_by_range xs a b))"
  by (simp add: filter_files_by_range_def)

lemma distinct_keys_sort: "distinct (map f (sort_key g xs)) \<longleftrightarrow> distinct (map f xs)"
  by (simp add: distinct_map)

lemma distinct_attached:
  "distinct (map sort_key_of (map attach (filter (in_file_range a b) xs))) \<longleftrightarrow>
   distinct (map (\<lambda>x. extract_file_number (filename x)) (filter (in_file_range a b) xs))"
proof -
  let ?F = "filter (in_file_range a b) xs"
  have some: "\<exists>n. extract_file_number (filename x) = Some n" if "x \<in> set ?F" for x
    using that by (auto simp: in_file_range_def split: option.splits)
  have "inj_on (\<lambda>x. sort_key_of (attach x)) (set ?F) \<longleftrightarrow>
        inj_on (\<lambda>x. extract_file_number (filename x)) (set ?F)"
    unfolding inj_on_def
  proof (intro ball_cong refl imp_cong)
    fix x y assume "x \<in> set ?F" "y \<in> set ?F"
    then obtain n m where "extract_file_number (filename x) = Some n"
      "extract_file_number (filename y) = Some m"
      using some by blast
    then show "(sort_key_of (attach x) = sort_key_of (attach y)) =
               (extract_file_number (filename x) = extract_file_number (filename y))"
      by (simp add: sort_key_of_def attach_def)
  qed
  then show ?thesis by (simp add: distinct_map comp_def)
qed

text \<open>The scenario of the specification: of four records, one survives the range 246..386.\<close>

lemma filter_files_by_range_scenario:
  "filter_files_by_range
     [csv_record ''01a-jan.csv'', csv_record ''15b-feb.csv'', csv_record ''246a-sep.csv'',
      csv_record ''387a-oct.csv''] 246 386 =
   [(csv_record ''246a-sep.csv'')\<lparr>file_number := Some 246\<rparr>]"
  by code_simp

text \<open>
  C3: a record is retained if and only if the number inferred from its filename is
  present and lies in the inclusive range. The code misses one case: the record
  \<open>0a.csv\<close> has the number 0, the range 0..5 holds 0, and the output is empty.
\<close>

theorem filter_files_by_range_drops_zero:
  "extract_file_number (filename (csv_record ''0a.csv'')) = Some 0 \<and>
   (0::int) \<le> 0 \<and> (0::int) \<le> 5 \<and>
   filter_files_by_range [csv_record ''0a.csv''] 0 5 = []"
  by code_simp

text \<open>
  C4, as amended: the output is ascending by attached number, and it is strictly
  ascending exactly when no two retained records have the same inferred number.
\<close>

theorem filter_files_by_range_ascending:
  "sorted (map sort_key_of (filter_files_by_range csv_files start_num end_num)) \<and>
   (sorted_wrt (<) (map sort_key_of (filter_files_by_range csv_files start_num end_num)) \<longleftrightarrow>
    distinct (map (\<lambda>x. extract_file_number (filename x))
               (filter (in_file_range start_num end_num) csv_files)))"
proof -
  have "distinct (map sort_key_of (filter_files_by_range csv_files start_num end_num)) \<longleftrightarrow>
        distinct (map (\<lambda>x. extract_file_number (filename x))
               (filter (in_file_range start_num end_num) csv_files))"
    unfolding filter_files_by_range_def distinct_keys_sort filter_loop_conv
    by (rule distinct_attached)
  then show ?thesis
    using sorted_filter_files [of csv_files start_num end_num]
    by (simp add: strict_sorted_iff)
qed

theorem filter_files_by_range_ascending_witness:
  "sorted_wrt (<) (map sort_key_of
     (filter_files_by_range [csv_record ''300a.csv'', csv_record ''246a.csv''] 246 386)) \<and>
   map sort_key_of
     (filter_files_by_range [csv_record ''300a.csv'', csv_record ''246a.csv''] 246 386) =
   [246, 300]"
proof -
  have e: "map sort_key_of
     (filter_files_by_range [csv_record ''300a.csv'', csv_record ''246a.csv''] 246 386) =
     [246, 300]"
    by code_simp
  have d: "distinct (map (\<lambda>x. extract_file_number (filename x))
             (filter (in_file_range 246 386) [csv_record ''300a.csv'', csv_record ''246a.csv'']))"
    by code_simp
  have "sorted_wrt (<) (map sort_key_of
     (filter_files_by_range [csv_record ''300a.csv'', csv_record ''246a.csv''] 246 386))"
    using filter_files_by_range_ascending
            [of "[csv_record ''300a.csv'', csv_record ''246a.csv'']" 246 386] d
    by blast
  then show ?thesis using e by simp
qed

text \<open>
  Counterexample to the strict order that C4 states: two files with the number 246 are
  both kept, so the output is not strictly ascending.
\<close>

theorem filter_files_by_range_ties_counterexample:
  "map sort_key_of
     (filter_files_by_range [csv_record ''246a.csv'', csv_record ''246b.csv''] 246 386) =
   [246, 246] \<and>
   \<not> sorted_wrt (<) (map sort_key_of
     (filter_files_by_range [csv_record ''246a.csv'', csv_record ''246b.csv''] 246 386))"
proof -
  have e: "map sort_key_of
     (filter_files_by_range [csv_record ''246a.csv'', csv_record ''246b.csv''] 246 386) =
     [246, 246]"
    by code_simp
  show ?thesis unfolding e by simp
qed

text \<open>
  C7: the output is sorted ascending by attached number, the records with one and the
  same number stand in their order of extraction, and every number of the output lies
  in the inclusive range.
\<close>

theorem filter_files_by_range_sorted_stable:
  "sorted (map sort_key_of (filter_files_by_range csv_files start_num end_num)) \<and>
   (\<forall>k. filter (\<lambda>x. sort_key_of x = k) (filter_files_by_range csv_files start_num end_num) =
        map attach (filter (\<lambda>x. extract_file_number (filename x) = Some k \<and>
                                 in_file_range start_num end_num x) csv_files)) \<and>
   (\<forall>x\<in>set (filter_files_by_range csv_files start_num end_num).
        \<exists>n. file_number x = Some n \<and> start_num \<le> n \<and> n \<le> end_num)"
proof (intro conjI allI ballI)
  show "sorted (map sort_key_of (filter_files_by_range csv_files start_num end_num))"
    by (rule sorted_filter_files)
next
  fix k
  have "filter (\<lambda>x. sort_key_of x = k) (filter_files_by_range csv_files start_num end_num) =
        filter (\<lambda>x. sort_key_of x = k) (filter_loop start_num end_num csv_files)"
    by (simp add: filter_files_by_range_def sort_key_stable)
  also have "\<dots> = map attach (filter (\<lambda>x. sort_key_of (attach x) = k)
                      (filter (in_file_range start_num end_num) csv_files))"
    by (simp add: filter_loop_conv filter_map comp_def)
  also have "\<dots> = map attach (filter (\<lambda>x. extract_file_number (filename x) = Some k \<and>
                                 in_file_range start_num end_num x) csv_files)"
    by (auto simp: in_file_range_def attach_def sort_key_of_def split: option.splits
        intro!: arg_cong [where f = "map attach"] filter_cong)
  finally show
    "filter (\<lambda>x. sort_key_of x = k) (filter_files_by_range csv_files start_num end_num) =
     map attach (filter (\<lambda>x. extract_file_number (filename x) = Some k \<and>
                              in_file_range start_num end_num x) csv_files)" .
next
  fix x assume "x \<in> set (filter_files_by_range csv_files start_num end_num)"
  then have "x \<in> set (filter_loop start_num end_num csv_files)"
    by (simp add: filter_files_by_range_def)
  then show "\<exists>n. file_number x = Some n \<and> start_num \<le> n \<and> n \<le> end_num"
    by (auto dest: filter_loop_number)
qed

theorem filter_files_by_range_sorted_stable_witness:
  "map filename (filter_files_by_range
     [csv_record ''300a.csv'', csv_record ''246b.csv'', csv_record ''246a.csv''] 246 386) =
     [''246b.csv'', ''246a.csv'', ''300a.csv''] \<and>
   map file_number (filter_files_by_range
     [csv_record ''300a.csv'', csv_record ''246b.csv'', csv_record ''246a.csv''] 246 386) =
     [Some 246, Some 246, Some 300] \<and>
   sorted (map sort_key_of (filter_files_by_range
     [csv_record ''300a.csv'', csv_record ''246b.csv'', csv_record ''246a.csv''] 246 386)) \<and>
   filter (\<lambda>x. sort_key_of x = 246) (filter_files_by_range
     [csv_record ''300a.csv'', csv_record ''246b.csv'', csv_record ''246a.csv''] 246 386) =
     [attach (csv_record ''246b.csv''), attach (csv_record ''246a.csv'')]"
proof -
  let ?in = "[csv_record ''300a.csv'', csv_record ''246b.csv'', csv_record ''246a.csv'']"
  note spec = filter_files_by_range_sorted_stable [of ?in 246 386]
  have e: "map filename (filter_files_by_range ?in 246 386) =
           [''246b.csv'', ''246a.csv'', ''300a.csv'']"
    by code_simp
  have f: "map file_number (filter_files_by_range ?in 246 386) =
           [Some 246, Some 246, Some 300]"
    by code_simp
  have g: "filter (\<lambda>x. extract_file_number (filename x) = Some 246 \<and> in_file_range 246 386 x)
             ?in = [csv_record ''246b.csv'', csv_record ''246a.csv'']"
    by code_simp
  from spec have "sorted (map sort_key_of (filter_files_by_range ?in 246 386))"
    by (rule conjunct1)
  moreover from spec have "filter (\<lambda>x. sort_key_of x = 246) (filter_files_by_range ?in 246 386) =
        map attach (filter (\<lambda>x. extract_file_number (filename x) = Some 246 \<and>
                                 in_file_range 246 386 x) ?in)"
    by blast
  ultimately show ?thesis using e f unfolding g by simp
qed

text \<open>
  C8: filtering and sorting is idempotent: applied to its own output with the same
  range, it returns that output unchanged.
\<close>

theorem filter_files_by_range_idempotent:
  "filter_files_by_range (filter_files_by_range csv_files start_num end_num) start_num end_num =
   filter_files_by_range csv_files start_num end_num"
proof -
  let ?out = "filter_files_by_range csv_files start_num end_num"
  have "\<forall>x\<in>set ?out. \<exists>n. file_number x = Some n \<and>
          extract_file_number (filename x) = Some n \<and> n \<noteq> 0 \<and> start_num \<le> n \<and> n \<le> end_num"
    by (auto simp: filter_files_by_range_def dest: filter_loop_number)
  then have "filter_loop start_num end_num ?out = ?out" by (rule filter_loop_fixed)
  moreover have "sort_key sort_key_of ?out = ?out"
    by (rule sort_key_id_if_sorted) (rule sorted_filter_files)
  ultimately show ?thesis by (simp add: filter_files_by_range_def [of ?out])
qed

section \<open>Link extraction\<close>

lemma endswith_suffix: "endswith s suf \<longleftrightarrow> suffix suf s"
proof
  assume "endswith s suf"
  then have "s = take (length s - length suf) s @ suf"
    by (metis append_take_drop_id endswith_def)
  then show "suffix suf s" by (rule suffixI)
next
  assume "suffix suf s"
  then obtain zs where "s = zs @ suf" by (auto simp: suffix_def)
  then show "endswith s suf" by (simp add: endswith_def)
qed

lemma split_on_nonempty: "split_on sep s \<noteq> []"
  by (induction s) (auto simp: Let_def)

lemma split_on_no_sep: "sep \<notin> set s \<Longrightarrow> split_on sep s = [s]"
  by (induction s) (auto simp: Let_def)

lemma split_on_sep: "sep \<in> set s \<Longrightarrow> tl (split_on sep s) \<noteq> []"
  by (induction s) (auto simp: Let_def split_on_nonempty)

lemma last_split_on: "last (split_on sep s) = rev (takeWhile (\<lambda>c. c \<noteq> sep) (rev s))"
proof (induction s)
  case Nil
  show ?case by simp
next
  case (Cons c cs)
  show ?case
  proof (cases "sep \<in> set cs")
    case True
    then have t: "tl (split_on sep cs) \<noteq> []" by (rule split_on_sep)
    have "takeWhile (\<lambda>c. c \<noteq> sep) (rev cs @ [c]) = takeWhile (\<lambda>c. c \<noteq> sep) (rev cs)"
      using True by (intro takeWhile_append1 [where x = sep]) auto
    moreover have "last (split_on sep (c # cs)) = last (split_on sep cs)"
      using t split_on_nonempty [of sep cs]
      by (cases "split_on sep cs") (auto simp: Let_def)
    ultimately show ?thesis using Cons.IH by simp
  next
    case False
    then have s: "split_on sep cs = [cs]" by (rule split_on_no_sep)
    have all: "\<forall>x\<in>set (rev cs). x \<noteq> sep" using False by auto
    then have t: "takeWhile (\<lambda>c. c \<noteq> sep) (rev cs) = rev cs"
      by (simp add: takeWhile_eq_all_conv)
    have t2: "takeWhile (\<lambda>c. c \<noteq> sep) (rev cs @ [d]) =
              rev cs @ takeWhile (\<lambda>c. c \<noteq> sep) [d]" for d
      using all by (intro takeWhile_append2) auto
    show ?thesis
      by (cases "c = sep") (simp_all add: Let_def s t t2)
  qed
qed

text \<open>The final segment is what stands behind the last \<open>/\<close>.\<close>

lemma final_segment_decomp:
  "\<exists>pre. href = pre @ final_segment href \<and> (pre = [] \<or> last pre = CHR ''/'') \<and>
         CHR ''/'' \<notin> set (final_segment href)"
proof -
  let ?P = "\<lambda>c. c \<noteq> CHR ''/''"
  let ?pre = "rev (dropWhile ?P (rev href))"
  have "rev href = takeWhile ?P (rev href) @ dropWhile ?P (rev href)" by simp
  then have "href = ?pre @ final_segment href"
    unfolding final_segment_def by (metis rev_append rev_rev_ident)
  moreover have "?pre = [] \<or> last ?pre = CHR ''/''"
    by (cases "dropWhile ?P (rev href)")
       (auto simp: last_rev dest: dropWhile_eq_Cons_conv [THEN iffD1])
  moreover have "CHR ''/'' \<notin> set (final_segment href)"
    unfolding final_segment_def by (auto dest: set_takeWhileD)
  ultimately show ?thesis by blast
qed

lemma csv_loop_conv:
  "csv_loop links =
     [\<lparr>filename = final_segment h, url = h, text = strip t, file_number = None\<rparr>.
        Anchor (Some h) t \<leftarrow> links, h \<noteq> [] \<and> suffix ''.csv'' h]"
  by (induction links rule: csv_loop.induct)
     (simp_all add: endswith_suffix last_split_on final_segment_def)

lemma upper_not_csv: "\<not> suffix ''.csv'' (h @ ''.CSV'')"
  by (simp add: suffix_def)

text \<open>A kept href ends with \<open>.csv\<close>, and so does its final segment: it is not empty.\<close>

lemma final_segment_csv:
  assumes "suffix ''.csv'' href"
  shows "suffix ''.csv'' (final_segment href)"
proof -
  from assms obtain zs where "href = zs @ ''.csv''" by (auto simp: suffix_def)
  then have "final_segment href = final_segment zs @ ''.csv''"
    by (simp add: final_segment_def)
  then show ?thesis by (simp add: suffix_def)
qed

text \<open>An extracted filename is one path component: not empty and without \<open>/\<close>.\<close>

lemma csv_loop_filenames:
  assumes "fi \<in> set (csv_loop links)"
  shows "filename fi \<noteq> [] \<and> CHR ''/'' \<notin> set (filename fi)"
proof -
  from assms obtain h where f: "filename fi = final_segment h" and h: "suffix ''.csv'' h"
    by (auto simp: csv_loop_conv split: link.splits option.splits if_splits)
  from final_segment_csv [OF h] have "final_segment h \<noteq> []"
    by (auto simp: suffix_def)
  moreover have "CHR ''/'' \<notin> set (final_segment h)"
    using final_segment_decomp [of h] by blast
  ultimately show ?thesis using f by simp
qed

text \<open>
  C9: the link extractor keeps exactly the anchors whose href is not empty and ends
  with \<open>.csv\<close>, compared character by character, so that an href ending in \<open>.CSV\<close>
  is not extracted; the filename of a kept anchor is the final segment of its href;
  no anchors give no records.
\<close>

theorem get_all_filenames_links:
  "get_all_filenames (Links links) =
     [\<lparr>filename = final_segment h, url = h, text = strip t, file_number = None\<rparr>.
        Anchor (Some h) t \<leftarrow> links, h \<noteq> [] \<and> suffix ''.csv'' h] \<and>
   get_all_filenames (Links (before @ Anchor (Some (h' @ ''.CSV'')) t' # after)) =
     get_all_filenames (Links (before @ after)) \<and>
   get_all_filenames (Links []) = []"
  by (simp add: csv_loop_conv upper_not_csv)

theorem get_all_filenames_links_witness:
  "get_all_filenames (Links
     [Anchor (Some ''https://cycling.data.tfl.gov.uk/usage-stats/246a.csv'') '' 246a.csv '',
      Stale, Anchor None ''Home'', Anchor (Some []) ''top'',
      Anchor (Some ''https://cycling.data.tfl.gov.uk/usage-stats/247a.CSV'') ''247a.CSV'']) =
   [\<lparr>filename = ''246a.csv'',
     url = ''https://cycling.data.tfl.gov.uk/usage-stats/246a.csv'',
     text = ''246a.csv'', file_number = None\<rparr>]"
proof -
  let ?links = "[Anchor (Some ''https://cycling.data.tfl.gov.uk/usage-stats/246a.csv'') '' 246a.csv '',
      Stale, Anchor None ''Home'', Anchor (Some []) ''top'',
      Anchor (Some ''https://cycling.data.tfl.gov.uk/usage-stats/247a.CSV'') ''247a.CSV'']"
  have "[\<lparr>filename = final_segment h, url = h, text = strip t, file_number = None\<rparr>.
          Anchor (Some h) t \<leftarrow> ?links, h \<noteq> [] \<and> suffix ''.csv'' h] =
        [\<lparr>filename = ''246a.csv'',
          url = ''https://cycling.data.tfl.gov.uk/usage-stats/246a.csv'',
          text = ''246a.csv'', file_number = None\<rparr>]"
    by code_simp
  then show ?thesis
    using get_all_filenames_links [of ?links "[]" "[]" "[]" "[]"] by simp
qed

section \<open>Downloader\<close>


text \<open>The two counters of the summary account for every file of the list.\<close>

lemma download_all_counts:
  "fst (fst (download_all net files (s, f) w)) + snd (fst (download_all net files (s, f) w)) =
     s + f + length files"
  by (induction files arbitrary: s f w) (auto split: prod.splits bool.splits)

text \<open>
  C5: when a file exists at the target path before the call, the download reports the
  skip (it returns \<open>True\<close> and prints that the file exists), issues no HTTP request,
  and leaves the file system, so the bytes of that file, as it was.
\<close>

theorem download_file_skips_existing:
  assumes "fs w download_dir = Directory m" and "m (filename fi) = Some content"
  shows "fst (download_file net fi download_dir w) = True \<and>
         requests (snd (download_file net fi download_dir w)) = requests w \<and>
         fs (snd (download_file net fi download_dir w)) = fs w \<and>
         console (snd (download_file net fi download_dir w)) =
           console w @ [AlreadyExists (filename fi)]"
  using assms by (simp add: download_file_def makedirs_def path_exists_def print_def)

theorem download_file_skips_existing_witness:
  "fs world_with_file ''cycling_data'' = Directory dir_with_file \<and>
   dir_with_file (filename (csv_record ''246a.csv'')) = Some ''old bytes'' \<and>
   fst (download_file net_ok (csv_record ''246a.csv'') ''cycling_data'' world_with_file) = True \<and>
   requests (snd (download_file net_ok (csv_record ''246a.csv'') ''cycling_data''
     world_with_file)) = [] \<and>
   fs (snd (download_file net_ok (csv_record ''246a.csv'') ''cycling_data'' world_with_file))
     ''cycling_data'' = Directory dir_with_file"
proof -
  have a: "fs world_with_file ''cycling_data'' = Directory dir_with_file"
    by (simp add: world_with_file_def)
  have b: "dir_with_file (filename (csv_record ''246a.csv'')) = Some ''old bytes''"
    by (simp add: csv_record_def dir_with_file_def)
  have c: "requests world_with_file = []"
    by (simp add: world_with_file_def)
  show ?thesis
    using download_file_skips_existing [OF a b, of net_ok] a b c by simp
qed




end
